theory Spec2Isabelle
  imports Main "HOL-Library.Multiset" "HOL-Library.Log_Nat"
begin

section \<open>The curve sorter \<open>FEsort\<close> of \<open>TSurf/python/tsurf_geometry.py\<close>\<close>

text \<open>
  \<open>FEsort\<close> receives the bar connectivity of one CGNS curve section as a Python list of
  lists of point ids (\<open>[[2,3],[5,6],[3,4],...]\<close>) and stitches the bars into curves, each
  curve a list of point ids. Point ids are Python integers (\<open>int\<close>); a curve in progress
  is an \<open>int list\<close>; the working lists \<open>oldConn\<close> and \<open>newConn\<close> are lists of curves.
  Every Python exception the function can raise is a value of \<open>error\<close>.
\<close>

datatype error = IndexError | ValueError | OverflowError

subsection \<open>Linking one element to one curve (source lines 397--452)\<close>

text \<open>
  The \<open>if/elif\<close> chain inside the \<open>for newElement in newConn\<close> loop. Python evaluates
  \<open>oldElement[0]\<close> and then \<open>newElement[0]\<close> first, and each raises \<open>IndexError\<close> on an
  empty list; after that all four subscripts are defined. The slices \<open>x[1:]\<close>, \<open>x[:-1]\<close>
  and \<open>x[::-1]\<close> are \<open>tl\<close>, \<open>butlast\<close> and \<open>rev\<close>. The result \<open>Inr None\<close> is
  "no branch taken".
\<close>

definition link :: "int list \<Rightarrow> int list \<Rightarrow> error + int list option" where
  "link oldElement newElement =
     (if oldElement = [] \<or> newElement = [] then Inl IndexError
      else if hd oldElement = hd newElement then
        Inr (Some (rev oldElement @ tl newElement))
      else if hd oldElement = last newElement then
        Inr (Some (butlast newElement @ oldElement))
      else if last oldElement = hd newElement then
        Inr (Some (oldElement @ tl newElement))
      else if last oldElement = last newElement then
        Inr (Some (butlast newElement @ rev oldElement))
      else Inr None)"

subsection \<open>The scan over \<open>newConn\<close> (source lines 394--455)\<close>

text \<open>
  The \<open>for\<close> loop with its counter \<open>newElemCounter\<close>: the first curve of \<open>newConn\<close>
  that one of the four tests accepts is overwritten in place by the linked curve, and the
  loop is left by \<open>break\<close>. \<open>Inr (Some newConn')\<close> is the updated list
  (\<open>linked_element = True\<close>), \<open>Inr None\<close> means that the loop ran to its end with
  \<open>linked_element = False\<close>.
\<close>

fun fit_element :: "int list \<Rightarrow> int list list \<Rightarrow> error + int list list option" where
  "fit_element oldElement [] = Inr None"
| "fit_element oldElement (newElement # rest) =
     (case link oldElement newElement of
        Inl e \<Rightarrow> Inl e
      | Inr (Some linked) \<Rightarrow> Inr (Some (linked # rest))
      | Inr None \<Rightarrow>
          (case fit_element oldElement rest of
             Inl e \<Rightarrow> Inl e
           | Inr None \<Rightarrow> Inr None
           | Inr (Some rest') \<Rightarrow> Inr (Some (newElement # rest'))))"

subsection \<open>One pass (source lines 373--460)\<close>

text \<open>
  The inner \<open>while len(oldConn) > 0\<close> loop: pop the front element of \<open>oldConn\<close>, try to
  fit it, append it to \<open>newConn\<close> as a new curve if it fits nowhere. The state is
  \<open>oldConn\<close>, \<open>newConn\<close> and the flag \<open>keep_searching\<close>.
\<close>

fun assign_all :: "int list list \<Rightarrow> int list list \<Rightarrow> bool \<Rightarrow> error + (int list list \<times> bool)" where
  "assign_all [] newConn keep_searching = Inr (newConn, keep_searching)"
| "assign_all (oldElement # oldConn) newConn keep_searching =
     (case fit_element oldElement newConn of
        Inl e \<Rightarrow> Inl e
      | Inr (Some newConn') \<Rightarrow> assign_all oldConn newConn' True
      | Inr None \<Rightarrow> assign_all oldConn (newConn @ [oldElement]) keep_searching)"

text \<open>
  The body of the outer loop: \<open>keep_searching = False\<close>, \<open>oldConn = newConn[:]\<close>,
  \<open>newConn = [oldConn.pop(0)]\<close>, then the inner loop. \<open>pop(0)\<close> of an empty list raises
  \<open>IndexError\<close>.
\<close>

definition search_pass :: "int list list \<Rightarrow> error + (int list list \<times> bool)" where
  "search_pass newConn =
     (case newConn of
        [] \<Rightarrow> Inl IndexError
      | first # oldConn \<Rightarrow> assign_all oldConn [first] False)"

subsection \<open>The outer loop (source lines 371--460)\<close>

text \<open>
  \<open>while keep_searching\<close>: the flag is \<open>True\<close> on entry, so the body runs at least once,
  and again for as long as a pass linked something. Nothing in the text of the loop bounds
  the number of passes, so the loop is a partial function: \<open>None\<close> is "does not return".
\<close>

partial_function (option) search_loop :: "int list list \<Rightarrow> (error + int list list) option" where
  "search_loop newConn =
     (case search_pass newConn of
        Inl e \<Rightarrow> Some (Inl e)
      | Inr (newConn', keep_searching) \<Rightarrow>
          if keep_searching then search_loop newConn' else Some (Inr newConn'))"

declare search_loop.simps [code]

subsection \<open>Conversion to FE format (source lines 462--491)\<close>

text \<open>
  Each curve becomes a numpy array of shape \<open>(2, len(curve)-1)\<close>: row 0 holds the first
  point of every bar and row 1 the second. The array is modelled by its two rows. The
  arrays are created by \<open>np.zeros\<close> (line 468), all of them before any is filled, and
  \<open>np.zeros\<close> raises \<open>ValueError\<close> for the negative dimension that an empty curve gives.

  \<open>np.zeros\<close> makes arrays of float64, so the assignments of lines 487--488 convert every
  point id from a Python integer to a double: the id is rounded to 53 significant bits,
  ties to even, and the conversion raises \<open>OverflowError\<close> when the rounded value would
  be \<open>2^1024\<close> or more. Every double obtained in this way is a whole number, and the model
  keeps it as that integer. With \<open>shift\<close> the number of low bits that do not fit,
  \<open>q\<close> is the id without them and \<open>r\<close> is what they hold.
\<close>

definition float64_of_int :: "int \<Rightarrow> error + int" where
  "float64_of_int n =
     (let a = \<bar>n\<bar>;
          shift = nat (bitlen a - 53);
          q = a div 2 ^ shift;
          r = a mod 2 ^ shift;
          m = (if 2 ^ shift < 2 * r \<or> (2 * r = 2 ^ shift \<and> odd q) then q + 1 else q);
          v = m * 2 ^ shift
      in if 2 ^ 1024 \<le> v then Inl OverflowError else Inr (sgn n * v))"

text \<open>Storing a sequence of ids into one row stops at the first id that cannot be stored.\<close>

fun store_row :: "int list \<Rightarrow> error + int list" where
  "store_row [] = Inr []"
| "store_row (point # rest) =
     (case float64_of_int point of
        Inl e \<Rightarrow> Inl e
      | Inr x \<Rightarrow>
          (case store_row rest of
             Inl e \<Rightarrow> Inl e
           | Inr xs \<Rightarrow> Inr (x # xs)))"

type_synonym fe_curve = "int list \<times> int list"

text \<open>
  The loop \<open>for pointID in range(1,len(curve))\<close> stores \<open>curve[pointID-1]\<close> in row 0 and
  \<open>curve[pointID]\<close> in row 1, column \<open>pointID-1\<close>. The source alternates between the two
  rows; the only exception a store can raise is \<open>OverflowError\<close>, so filling row 0 and then
  row 1 gives the same arrays and the same exception.
\<close>

definition fill_FE :: "int list \<Rightarrow> error + fe_curve" where
  "fill_FE curve =
     (case store_row (map (\<lambda>pointID. curve ! (pointID - 1)) [1..<length curve]) of
        Inl e \<Rightarrow> Inl e
      | Inr row0 \<Rightarrow>
          (case store_row (map (\<lambda>pointID. curve ! pointID) [1..<length curve]) of
             Inl e \<Rightarrow> Inl e
           | Inr row1 \<Rightarrow> Inr (row0, row1)))"

fun fill_curves :: "int list list \<Rightarrow> error + fe_curve list" where
  "fill_curves [] = Inr []"
| "fill_curves (curve # rest) =
     (case fill_FE curve of
        Inl e \<Rightarrow> Inl e
      | Inr FEcurve \<Rightarrow>
          (case fill_curves rest of
             Inl e \<Rightarrow> Inl e
           | Inr FEcurves \<Rightarrow> Inr (FEcurve # FEcurves)))"

definition to_FE :: "int list list \<Rightarrow> error + fe_curve list" where
  "to_FE newConn =
     (if [] \<in> set newConn then Inl ValueError else fill_curves newConn)"

subsection \<open>\<open>FEsort\<close>\<close>

text \<open>
  What a Python call hands back is a reference that may be \<open>None\<close>: the docstring of
  \<open>FEsort\<close> promises \<open>None\<close> on failure and the caller tests for it. The only \<open>return\<close>
  statement of \<open>FEsort\<close> is \<open>return newConnFE\<close>.
\<close>

datatype pyresult = PyNone | PyList "fe_curve list"

definition FEsort :: "int list list \<Rightarrow> (error + pyresult) option" where
  "FEsort barsConn =
     (case search_loop barsConn of
        None \<Rightarrow> None
      | Some (Inl e) \<Rightarrow> Some (Inl e)
      | Some (Inr newConn) \<Rightarrow>
          (case to_FE newConn of
             Inl e \<Rightarrow> Some (Inl e)
           | Inr newConnFE \<Rightarrow> Some (Inr (PyList newConnFE))))"

subsection \<open>The caller's test (\<open>getCGNSsections\<close>, source lines 78--89)\<close>

text \<open>
  \<open>getCGNSsections\<close> calls \<open>FEsort\<close> once per curve section and tests the result:
  \<open>if sortedConn is not None\<close> it keeps the sorted connectivity, otherwise it falls back to
  the original slice of \<open>barsConn\<close> and prints that the curve could not be sorted. Only the
  choice is modelled; the numpy conversion \<open>np.array(sortedConn).T\<close> that follows is not.
\<close>

datatype conn_choice = UseSorted "fe_curve list" | UseOriginalAndWarn

definition section_choice :: "pyresult \<Rightarrow> conn_choice" where
  "section_choice sortedConn =
     (case sortedConn of PyList c \<Rightarrow> UseSorted c | PyNone \<Rightarrow> UseOriginalAndWarn)"

section \<open>Notions of the specification\<close>

text \<open>
  An input edge set is a list of pairs of point ids; \<open>bars_of\<close> is the Python value
  handed to \<open>FEsort\<close>, the list of two-element lists
  (\<open>barsConn[:,iBarsStart:iBarsEnd].T.tolist()\<close> in the caller).
\<close>

definition bars_of :: "(int \<times> int) list \<Rightarrow> int list list" where
  "bars_of E = map (\<lambda>(a, b). [a, b]) E"

text \<open>The bars of a curve are its pairs of consecutive points.\<close>

definition curve_bars :: "int list \<Rightarrow> (int \<times> int) list" where
  "curve_bars curve = zip curve (tl curve)"

definition conn_bars :: "int list list \<Rightarrow> (int \<times> int) list" where
  "conn_bars conn = concat (map curve_bars conn)"

definition conn_points :: "int list list \<Rightarrow> int set" where
  "conn_points conn = \<Union> (set ` set conn)"

text \<open>
  The array of a curve when every id is stored unchanged, and the inputs for which that is
  so: a double holds every integer up to \<open>2^53\<close> in absolute value exactly.
\<close>

definition FE_of :: "int list \<Rightarrow> fe_curve" where
  "FE_of curve = (butlast curve, tl curve)"

definition ids_exact :: "(int \<times> int) list \<Rightarrow> bool" where
  "ids_exact E \<longleftrightarrow> (\<forall>e \<in> set E. \<bar>fst e\<bar> \<le> 2 ^ 53 \<and> \<bar>snd e\<bar> \<le> 2 ^ 53)"

text \<open>The bars held by an FE array are its columns; its points are the entries of both rows.\<close>

definition FE_bars :: "fe_curve \<Rightarrow> (int \<times> int) list" where
  "FE_bars c = zip (fst c) (snd c)"

definition recovered_bars :: "fe_curve list \<Rightarrow> (int \<times> int) list" where
  "recovered_bars newConnFE = concat (map FE_bars newConnFE)"

definition FE_points :: "fe_curve \<Rightarrow> int set" where
  "FE_points c = set (fst c) \<union> set (snd c)"

text \<open>
  The point sequence of the curve an FE array stands for, and the test for a closed curve:
  first point of the first bar equal to the last point of the last bar.
\<close>

definition FE_polyline :: "fe_curve \<Rightarrow> int list" where
  "FE_polyline c = (if fst c = [] then [] else fst c @ [last (snd c)])"

definition FE_closed :: "fe_curve \<Rightarrow> bool" where
  "FE_closed c \<longleftrightarrow> fst c \<noteq> [] \<and> hd (fst c) = last (snd c)"

text \<open>The bars of the returned curves: the pairs of consecutive points of each point sequence.\<close>

definition polyline_bars :: "fe_curve list \<Rightarrow> (int \<times> int) list" where
  "polyline_bars newConnFE = concat (map (\<lambda>c. curve_bars (FE_polyline c)) newConnFE)"

text \<open>Direction-insensitive comparison: an edge is normalised to (smaller id, larger id).\<close>

definition undirected :: "int \<times> int \<Rightarrow> int \<times> int" where
  "undirected e = (min (fst e) (snd e), max (fst e) (snd e))"

definition edge_mset :: "(int \<times> int) list \<Rightarrow> (int \<times> int) multiset" where
  "edge_mset es = mset (map undirected es)"

definition conn_mset :: "int list list \<Rightarrow> (int \<times> int) multiset" where
  "conn_mset conn = edge_mset (conn_bars conn)"

text \<open>Every curve of a working list has at least two points.\<close>

definition proper :: "int list list \<Rightarrow> bool" where
  "proper conn \<longleftrightarrow> (\<forall>c \<in> set conn. 2 \<le> length c)"

text \<open>The degree of a point in an edge list, and the inputs the specification singles out.\<close>

definition degree :: "(int \<times> int) list \<Rightarrow> int \<Rightarrow> nat" where
  "degree E v = count_list (map fst E) v + count_list (map snd E) v"

definition points :: "(int \<times> int) list \<Rightarrow> int list" where
  "points E = map fst E @ map snd E"

definition has_branch :: "(int \<times> int) list \<Rightarrow> bool" where
  "has_branch E \<longleftrightarrow> (\<exists>v \<in> set (points E). 3 \<le> degree E v)"

definition max_degree_2 :: "(int \<times> int) list \<Rightarrow> bool" where
  "max_degree_2 E \<longleftrightarrow> (\<forall>v \<in> set (points E). degree E v \<le> 2)"

definition malformed :: "(int \<times> int) list \<Rightarrow> bool" where
  "malformed E \<longleftrightarrow> (\<exists>e \<in> set E. fst e = snd e) \<or> \<not> distinct (map undirected E)"

text \<open>
  The two end points of a curve; working lists whose curves have pairwise different end
  points, and working lists whose curves share no point at all.
\<close>

definition ends :: "int list \<Rightarrow> int set" where
  "ends c = {hd c, last c}"

fun apart :: "int list list \<Rightarrow> bool" where
  "apart [] = True"
| "apart (c # cs) = ((\<forall>d \<in> set cs. ends c \<inter> ends d = {}) \<and> apart cs)"

fun disjoint_curves :: "int list list \<Rightarrow> bool" where
  "disjoint_curves [] = True"
| "disjoint_curves (c # cs) = ((\<forall>d \<in> set cs. set c \<inter> set d = {}) \<and> disjoint_curves cs)"

text \<open>
  The graph of an edge list: two points are adjacent when an edge joins them, in either
  direction, and connected when a path of edges leads from one to the other.
\<close>

definition adjacent :: "(int \<times> int) list \<Rightarrow> (int \<times> int) set" where
  "adjacent E = set E \<union> (set E)\<inverse>"

definition connected :: "(int \<times> int) list \<Rightarrow> int \<Rightarrow> int \<Rightarrow> bool" where
  "connected E u v \<longleftrightarrow> (u, v) \<in> (adjacent E)\<^sup>*"

section \<open>Properties of one pass\<close>

subsection \<open>The float64 store\<close>

lemma float64_small: "\<bar>n\<bar> < 2 ^ 53 \<Longrightarrow> float64_of_int n = Inr n"
proof -
  assume a: "\<bar>n\<bar> < 2 ^ 53"
  then have s: "nat (bitlen \<bar>n\<bar> - 53) = 0"
    using bitlen_le_iff_power [of "\<bar>n\<bar>" 53] by simp
  have "\<bar>n\<bar> < 2 ^ 1024"
    using a by (rule less_trans) simp
  then show ?thesis
    by (simp add: float64_of_int_def s Let_def mult_sgn_abs)
qed

lemma bitlen_2_53: "bitlen (2 ^ 53) = 54"
  using bitlen_twopow_add_eq [of 0 53] by simp

lemma float64_2_53: "\<bar>n\<bar> = 2 ^ 53 \<Longrightarrow> float64_of_int n = Inr n"
proof -
  assume a: "\<bar>n\<bar> = 2 ^ 53"
  have s: "nat (bitlen (2 ^ 53) - 53) = 1" by (simp only: bitlen_2_53)
  have n: "sgn n * 2 ^ 53 = n" using a mult_sgn_abs [of n] by simp
  have "float64_of_int n = Inr (sgn n * 2 ^ 53)"
    unfolding float64_of_int_def Let_def a s by simp
  with n show ?thesis by simp
qed

lemma float64_exact: "\<bar>n\<bar> \<le> 2 ^ 53 \<Longrightarrow> float64_of_int n = Inr n"
  using float64_small [of n] float64_2_53 [of n] by linarith

text \<open>Beyond \<open>2^53\<close> the store rounds, and from about \<open>2^1024\<close> it raises.\<close>

lemma float64_rounds_down: "float64_of_int 9007199254740993 = Inr 9007199254740992"
  by code_simp

lemma float64_rounds_up: "float64_of_int 9007199254740995 = Inr 9007199254740996"
  by code_simp

lemma float64_overflow: "float64_of_int (2 ^ 1024) = Inl OverflowError"
proof -
  have b: "bitlen (2 ^ 1024) = 1025"
    using bitlen_twopow_add_eq [of 0 1024] by simp
  have s: "nat (bitlen (2 ^ 1024) - 53) = 972" by (simp only: b)
  have q: "(2::int) ^ 1024 div 2 ^ 972 = 2 ^ 52" "(2::int) ^ 1024 mod 2 ^ 972 = 0"
    by (simp_all add: power_diff_power_eq)
  have v: "(2::int) ^ 52 * 2 ^ 972 = 2 ^ 1024"
    by (simp flip: power_add)
  have a: "\<bar>(2::int) ^ 1024\<bar> = 2 ^ 1024" by simp
  have c: "\<not> ((2::int) ^ 972 < 2 * 0 \<or> 2 * 0 = (2::int) ^ 972 \<and> odd ((2::int) ^ 52))"
    by simp
  show ?thesis
    unfolding float64_of_int_def Let_def a s q by (simp only: c if_False v order_refl if_True)
qed

lemma store_row_exact: "\<forall>x \<in> set xs. \<bar>x\<bar> \<le> 2 ^ 53 \<Longrightarrow> store_row xs = Inr xs"
  by (induction xs) (simp_all add: float64_exact)

lemma curve_rows:
  "map (\<lambda>pointID. curve ! (pointID - 1)) [1..<length curve] = butlast curve"
  "map (\<lambda>pointID. curve ! pointID) [1..<length curve] = tl curve"
proof -
  show "map (\<lambda>pointID. curve ! (pointID - 1)) [1..<length curve] = butlast curve"
    by (rule nth_equalityI) (auto simp: nth_butlast)
  show "map (\<lambda>pointID. curve ! pointID) [1..<length curve] = tl curve"
    by (rule nth_equalityI) (auto simp: nth_tl)
qed

lemma in_set_tl: "x \<in> set (tl xs) \<Longrightarrow> x \<in> set xs"
  by (cases xs) auto

lemma fill_FE_exact:
  assumes "\<forall>x \<in> set curve. \<bar>x\<bar> \<le> 2 ^ 53"
  shows "fill_FE curve = Inr (FE_of curve)"
proof -
  from assms have "\<forall>x \<in> set (butlast curve). \<bar>x\<bar> \<le> 2 ^ 53" "\<forall>x \<in> set (tl curve). \<bar>x\<bar> \<le> 2 ^ 53"
    by (auto dest: in_set_butlastD in_set_tl)
  then have "store_row (butlast curve) = Inr (butlast curve)" "store_row (tl curve) = Inr (tl curve)"
    by (simp_all only: store_row_exact)
  then show ?thesis
    unfolding fill_FE_def curve_rows by (simp add: FE_of_def)
qed

lemma fill_curves_exact:
  "\<forall>x \<in> conn_points conn. \<bar>x\<bar> \<le> 2 ^ 53 \<Longrightarrow> fill_curves conn = Inr (map FE_of conn)"
proof (induction conn)
  case Nil
  then show ?case by simp
next
  case (Cons curve rest)
  from Cons.prems have c: "\<forall>x \<in> set curve. \<bar>x\<bar> \<le> 2 ^ 53"
    and r: "\<forall>x \<in> conn_points rest. \<bar>x\<bar> \<le> 2 ^ 53"
    by (auto simp: conn_points_def)
  from fill_FE_exact [OF c] Cons.IH [OF r] show ?case by simp
qed

subsection \<open>Bars of curves\<close>

lemma zip_butlast_tl: "zip (butlast xs) (tl xs) = zip xs (tl xs)"
  by (induction xs rule: induct_list012) auto

lemma FE_bars_fill: "FE_bars (FE_of curve) = curve_bars curve"
  by (simp add: FE_bars_def FE_of_def curve_bars_def zip_butlast_tl)

lemma curve_bars_simps [simp]:
  "curve_bars [] = []" "curve_bars [x] = []"
  "curve_bars (x # y # zs) = (x, y) # curve_bars (y # zs)"
  by (simp_all add: curve_bars_def)


lemma curve_bars_append:
  "curve_bars (xs @ ys) =
     curve_bars xs @ (if xs = [] \<or> ys = [] then [] else [(last xs, hd ys)]) @ curve_bars ys"
proof (induction xs)
  case Nil
  then show ?case by simp
next
  case (Cons x xs)
  then show ?case by (cases xs; cases ys) auto
qed

lemma curve_bars_rev: "curve_bars (rev xs) = rev (map prod.swap (curve_bars xs))"
proof (induction xs)
  case Nil
  then show ?case by simp
next
  case (Cons x xs)
  then show ?case by (cases xs) (auto simp: curve_bars_append)
qed

lemma undirected_swap [simp]: "undirected (prod.swap e) = undirected e"
  by (cases e) (auto simp: undirected_def)

lemma edge_mset_Nil [simp]: "edge_mset [] = {#}"
  by (simp add: edge_mset_def)

lemma edge_mset_append [simp]: "edge_mset (es @ fs) = edge_mset es + edge_mset fs"
  by (simp add: edge_mset_def)

lemma edge_mset_rev_swap [simp]: "edge_mset (rev (map prod.swap es)) = edge_mset es"
  by (induction es) (simp_all add: edge_mset_def)

lemma curve_bars_join_tl:
  "xs \<noteq> [] \<Longrightarrow> ys \<noteq> [] \<Longrightarrow> last xs = hd ys \<Longrightarrow>
     curve_bars (xs @ tl ys) = curve_bars xs @ curve_bars ys"
  by (cases ys; cases "tl ys") (auto simp: curve_bars_append)

lemma curve_bars_join_butlast:
  "xs \<noteq> [] \<Longrightarrow> ys \<noteq> [] \<Longrightarrow> last xs = hd ys \<Longrightarrow>
     curve_bars (butlast xs @ ys) = curve_bars xs @ curve_bars ys"
proof -
  assume a: "xs \<noteq> []" "ys \<noteq> []" "last xs = hd ys"
  then have "butlast xs @ ys = xs @ tl ys"
    by (metis append_butlast_last_id append.assoc append_Cons append_Nil list.collapse)
  with a show ?thesis by (simp add: curve_bars_join_tl)
qed

lemma link_bars:
  assumes "link oldElement newElement = Inr (Some linked)"
  shows "edge_mset (curve_bars linked) =
           edge_mset (curve_bars oldElement) + edge_mset (curve_bars newElement)"
  using assms
  by (auto simp: link_def curve_bars_join_tl curve_bars_join_butlast curve_bars_rev
      hd_rev last_rev split: if_splits)

lemma link_length:
  assumes "link oldElement newElement = Inr (Some linked)"
  shows "length linked + 1 = length oldElement + length newElement"
  using assms by (auto simp: link_def split: if_splits)

lemma conn_mset_simps [simp]:
  "conn_mset [] = {#}"
  "conn_mset (c # conn) = edge_mset (curve_bars c) + conn_mset conn"
  "conn_mset (conn @ conn') = conn_mset conn + conn_mset conn'"
  by (simp_all add: conn_mset_def conn_bars_def)

lemma fit_element_bars:
  "fit_element oldElement newConn = Inr (Some newConn') \<Longrightarrow>
     conn_mset newConn' = edge_mset (curve_bars oldElement) + conn_mset newConn"
proof (induction newConn arbitrary: newConn')
  case Nil
  then show ?case by simp
next
  case (Cons newElement rest)
  then show ?case
    by (auto simp: link_bars split: sum.splits option.splits)
qed

lemma fit_element_length:
  "fit_element oldElement newConn = Inr (Some newConn') \<Longrightarrow> length newConn' = length newConn"
  by (induction newConn arbitrary: newConn') (auto split: sum.splits option.splits)

lemma assign_all_bars:
  "assign_all oldConn newConn ks = Inr (newConn', ks') \<Longrightarrow>
     conn_mset newConn' = conn_mset oldConn + conn_mset newConn"
proof (induction oldConn arbitrary: newConn ks)
  case Nil
  then show ?case by simp
next
  case (Cons oldElement oldConn)
  then show ?case
    by (auto simp: fit_element_bars split: sum.splits option.splits)
qed

lemma assign_all_length:
  "assign_all oldConn newConn ks = Inr (newConn', ks') \<Longrightarrow>
     length newConn' \<le> length oldConn + length newConn \<and>
     (ks' \<and> \<not> ks \<longrightarrow> length newConn' < length oldConn + length newConn) \<and>
     (\<not> ks' \<longrightarrow> \<not> ks \<and> newConn' = newConn @ oldConn)"
proof (induction oldConn arbitrary: newConn ks)
  case Nil
  then show ?case by auto
next
  case (Cons oldElement oldConn)
  show ?case
  proof (cases "fit_element oldElement newConn")
    case (Inl e)
    with Cons.prems show ?thesis by simp
  next
    case (Inr r)
    show ?thesis
    proof (cases r)
      case None
      with Inr Cons.prems have "assign_all oldConn (newConn @ [oldElement]) ks = Inr (newConn', ks')"
        by simp
      from Cons.IH [OF this] show ?thesis by (auto split: if_splits)
    next
      case (Some nc)
      with Inr Cons.prems have *: "assign_all oldConn nc True = Inr (newConn', ks')"
        by simp
      have "length nc = length newConn"
        using Inr Some by (simp add: fit_element_length)
      with Cons.IH [OF *] show ?thesis by (auto split: if_splits)
    qed
  qed
qed

lemma search_pass_length:
  assumes "search_pass conn = Inr (newConn', ks')"
  shows "if ks' then length newConn' < length conn else newConn' = conn"
proof (cases conn)
  case Nil
  with assms show ?thesis by (simp add: search_pass_def)
next
  case (Cons first oldConn)
  with assms have "assign_all oldConn [first] False = Inr (newConn', ks')"
    by (simp add: search_pass_def)
  from assign_all_length [OF this] Cons show ?thesis by auto
qed

lemma search_pass_bars:
  "search_pass conn = Inr (newConn', ks') \<Longrightarrow> conn_mset newConn' = conn_mset conn"
  by (auto simp: search_pass_def assign_all_bars split: list.splits)

lemma search_loop_returns: "\<exists>r. search_loop conn = Some r"
proof (induction conn rule: length_induct)
  case (1 conn)
  show ?case
  proof (cases "search_pass conn")
    case (Inl e)
    then show ?thesis by (subst search_loop.simps) simp
  next
    case (Inr r)
    obtain newConn' ks' where r: "r = (newConn', ks')" by (cases r)
    show ?thesis
    proof (cases ks')
      case True
      with Inr r have "length newConn' < length conn"
        using search_pass_length by fastforce
      with 1 obtain res where "search_loop newConn' = Some res" by blast
      with Inr r True show ?thesis by (subst search_loop.simps) simp
    next
      case False
      with Inr r show ?thesis by (subst search_loop.simps) simp
    qed
  qed
qed

text \<open>Rule for reasoning about the result of the loop: an invariant of the passes holds at the end,
  where a last pass changes nothing.\<close>

lemma search_loop_rule:
  assumes res: "search_loop conn = Some (Inr newConn)"
    and init: "I conn"
    and step: "\<And>c c' ks. I c \<Longrightarrow> search_pass c = Inr (c', ks) \<Longrightarrow> I c'"
  shows "I newConn \<and> search_pass newConn = Inr (newConn, False)"
  using res init
proof (induction conn rule: length_induct)
  case (1 conn)
  show ?case
  proof (cases "search_pass conn")
    case (Inl e)
    with 1(2) show ?thesis by (subst (asm) search_loop.simps) simp
  next
    case (Inr r)
    obtain c' ks' where r: "r = (c', ks')" by (cases r)
    have I': "I c'" using step [OF 1(3)] Inr r by simp
    show ?thesis
    proof (cases ks')
      case True
      with Inr r have len: "length c' < length conn"
        using search_pass_length by fastforce
      from 1(2) Inr r True have "search_loop c' = Some (Inr newConn)"
        by (subst (asm) search_loop.simps) simp
      with 1(1) len I' show ?thesis by blast
    next
      case False
      from 1(2) Inr r False have eq: "newConn = c'"
        by (subst (asm) search_loop.simps) simp
      from Inr r False have "c' = conn"
        using search_pass_length by fastforce
      with eq I' Inr r False show ?thesis by simp
    qed
  qed
qed

lemma link_proper:
  assumes "2 \<le> length oldElement" "2 \<le> length newElement"
  shows "\<exists>r. link oldElement newElement = Inr r"
    and "link oldElement newElement = Inr (Some linked) \<Longrightarrow> 2 \<le> length linked"
  using assms link_length [of oldElement newElement linked]
  by (auto simp: link_def)

lemma fit_element_proper:
  assumes "2 \<le> length oldElement" "proper newConn"
  shows "(\<exists>r. fit_element oldElement newConn = Inr r) \<and>
         (\<forall>newConn'. fit_element oldElement newConn = Inr (Some newConn') \<longrightarrow> proper newConn')"
  using assms(2)
proof (induction newConn)
  case Nil
  then show ?case by simp
next
  case (Cons newElement rest)
  then have n: "2 \<le> length newElement" and r: "proper rest"
    by (simp_all add: proper_def)
  from link_proper(1) [OF assms(1) n] obtain x where x: "link oldElement newElement = Inr x"
    by blast
  show ?case
  proof (cases x)
    case None
    with x Cons.IH [OF r] n show ?thesis
      by (auto simp: proper_def split: sum.splits option.splits)
  next
    case (Some linked)
    with x link_proper(2) [OF assms(1) n] r show ?thesis
      by (auto simp: proper_def)
  qed
qed

lemma assign_all_proper:
  assumes "proper oldConn" "proper newConn"
  shows "\<exists>newConn' ks'. assign_all oldConn newConn ks = Inr (newConn', ks') \<and> proper newConn'"
  using assms
proof (induction oldConn arbitrary: newConn ks)
  case Nil
  then show ?case by simp
next
  case (Cons oldElement oldConn)
  then have o: "2 \<le> length oldElement" and r: "proper oldConn"
    by (simp_all add: proper_def)
  from fit_element_proper [OF o Cons.prems(2)]
  obtain x where x: "fit_element oldElement newConn = Inr x"
    and p: "\<And>nc. x = Some nc \<Longrightarrow> proper nc" by auto
  show ?case
  proof (cases x)
    case None
    have "proper (newConn @ [oldElement])"
      using o Cons.prems(2) by (auto simp: proper_def)
    from Cons.IH [OF r this, of ks] x None show ?thesis by simp
  next
    case (Some nc)
    from Cons.IH [OF r p [OF Some], of True] x Some show ?thesis by simp
  qed
qed

lemma search_pass_proper:
  assumes "conn \<noteq> []" "proper conn"
  shows "\<exists>newConn' ks'. search_pass conn = Inr (newConn', ks') \<and> proper newConn'"
proof -
  from assms obtain first oldConn where c: "conn = first # oldConn" by (cases conn) auto
  with assms(2) have "proper oldConn" "proper [first]" by (simp_all add: proper_def)
  from assign_all_proper [OF this, of False] c show ?thesis by (simp add: search_pass_def)
qed

lemma assign_all_grows:
  "assign_all oldConn newConn ks = Inr (newConn', ks') \<Longrightarrow> length newConn \<le> length newConn'"
proof (induction oldConn arbitrary: newConn ks)
  case Nil
  then show ?case by simp
next
  case (Cons oldElement oldConn)
  then show ?case
    by (fastforce simp: fit_element_length split: sum.splits option.splits)
qed

lemma search_pass_nonempty:
  "search_pass conn = Inr (newConn', ks') \<Longrightarrow> newConn' \<noteq> []"
  by (cases conn) (auto simp: search_pass_def dest: assign_all_grows)

lemma search_loop_proper:
  assumes "conn \<noteq> []" "proper conn"
  shows "\<exists>newConn. search_loop conn = Some (Inr newConn)"
  using assms
proof (induction conn rule: length_induct)
  case (1 conn)
  from search_pass_proper [OF 1(2,3)] obtain c' ks'
    where p: "search_pass conn = Inr (c', ks')" and pr: "proper c'" by blast
  show ?case
  proof (cases ks')
    case True
    with p have "length c' < length conn"
      using search_pass_length by fastforce
    moreover have "c' \<noteq> []" using p by (rule search_pass_nonempty)
    ultimately obtain res where "search_loop c' = Some (Inr res)"
      using 1(1) pr by blast
    with p True show ?thesis by (subst search_loop.simps) simp
  next
    case False
    with p show ?thesis by (subst search_loop.simps) simp
  qed
qed

lemma proper_bars_of [simp]: "proper (bars_of E)"
  by (auto simp: proper_def bars_of_def)

lemma conn_mset_bars_of [simp]: "conn_mset (bars_of E) = edge_mset E"
  by (induction E) (auto simp: bars_of_def edge_mset_def)

lemma to_FE_exact:
  "proper conn \<Longrightarrow> \<forall>x \<in> conn_points conn. \<bar>x\<bar> \<le> 2 ^ 53 \<Longrightarrow> to_FE conn = Inr (map FE_of conn)"
  by (auto simp: to_FE_def proper_def fill_curves_exact)

subsection \<open>No pass brings in a new point\<close>

lemma link_points:
  "link oldElement newElement = Inr (Some linked) \<Longrightarrow> set linked \<subseteq> set oldElement \<union> set newElement"
  by (auto simp: link_def split: if_splits dest: in_set_butlastD in_set_tl)

lemma fit_element_points:
  "fit_element oldElement newConn = Inr (Some newConn') \<Longrightarrow>
     conn_points newConn' \<subseteq> set oldElement \<union> conn_points newConn"
proof (induction newConn arbitrary: newConn')
  case Nil
  then show ?case by simp
next
  case (Cons newElement rest)
  show ?case
  proof (cases "link oldElement newElement")
    case (Inl e)
    with Cons.prems show ?thesis by simp
  next
    case (Inr r)
    show ?thesis
    proof (cases r)
      case (Some linked)
      with Inr Cons.prems have "newConn' = linked # rest" by simp
      with link_points [of oldElement newElement linked] Inr Some show ?thesis
        by (auto simp: conn_points_def)
    next
      case None
      with Inr Cons.prems obtain rest' where r: "fit_element oldElement rest = Inr (Some rest')"
        and n: "newConn' = newElement # rest'"
        by (auto split: sum.splits option.splits)
      from Cons.IH [OF r] n show ?thesis
        by (auto simp: conn_points_def)
    qed
  qed
qed

lemma assign_all_points:
  "assign_all oldConn newConn ks = Inr (newConn', ks') \<Longrightarrow>
     conn_points newConn' \<subseteq> conn_points oldConn \<union> conn_points newConn"
proof (induction oldConn arbitrary: newConn ks)
  case Nil
  then show ?case by simp
next
  case (Cons oldElement oldConn)
  show ?case
  proof (cases "fit_element oldElement newConn")
    case (Inl e)
    with Cons.prems show ?thesis by simp
  next
    case (Inr r)
    show ?thesis
    proof (cases r)
      case None
      with Inr Cons.prems
      have "assign_all oldConn (newConn @ [oldElement]) ks = Inr (newConn', ks')" by simp
      from Cons.IH [OF this] show ?thesis
        by (auto simp: conn_points_def)
    next
      case (Some nc)
      with Inr Cons.prems have "assign_all oldConn nc True = Inr (newConn', ks')" by simp
      from Cons.IH [OF this] fit_element_points [of oldElement newConn nc] Inr Some
      show ?thesis by (auto simp: conn_points_def)
    qed
  qed
qed

lemma search_pass_points:
  assumes "search_pass conn = Inr (newConn', ks')"
  shows "conn_points newConn' \<subseteq> conn_points conn"
proof (cases conn)
  case Nil
  with assms show ?thesis by (simp add: search_pass_def)
next
  case (Cons first oldConn)
  with assms have "assign_all oldConn [first] False = Inr (newConn', ks')"
    by (simp add: search_pass_def)
  from assign_all_points [OF this] Cons show ?thesis
    by (auto simp: conn_points_def)
qed

lemma conn_points_bars_of: "conn_points (bars_of E) = fst ` set E \<union> snd ` set E"
  by (induction E) (auto simp: conn_points_def bars_of_def)

lemma ids_exact_points: "ids_exact E \<Longrightarrow> \<forall>x \<in> conn_points (bars_of E). \<bar>x\<bar> \<le> 2 ^ 53"
  by (auto simp: conn_points_bars_of ids_exact_def)

text \<open>
  The run of \<open>FEsort\<close> on a non-empty list of bars whose ids a double holds exactly, in one
  statement.
\<close>

lemma FEsort_run:
  assumes "E \<noteq> []" "ids_exact E"
  shows "\<exists>newConn. search_loop (bars_of E) = Some (Inr newConn) \<and>
           FEsort (bars_of E) = Some (Inr (PyList (map FE_of newConn))) \<and>
           newConn \<noteq> [] \<and> proper newConn \<and> conn_mset newConn = edge_mset E \<and>
           search_pass newConn = Inr (newConn, False) \<and>
           (\<forall>x \<in> conn_points newConn. \<bar>x\<bar> \<le> 2 ^ 53)"
proof -
  have ne: "bars_of E \<noteq> []" using assms by (simp add: bars_of_def)
  from search_loop_proper [OF ne proper_bars_of]
  obtain newConn where l: "search_loop (bars_of E) = Some (Inr newConn)" by blast
  let ?I = "\<lambda>c. c \<noteq> [] \<and> proper c \<and> conn_mset c = edge_mset E \<and>
              (\<forall>x \<in> conn_points c. \<bar>x\<bar> \<le> 2 ^ 53)"
  have "?I newConn \<and> search_pass newConn = Inr (newConn, False)"
  proof (rule search_loop_rule [OF l, where I = ?I])
    show "?I (bars_of E)" using ne ids_exact_points [OF assms(2)] by simp
  next
    fix c c' ks
    assume I: "?I c" and p: "search_pass c = Inr (c', ks)"
    from I search_pass_proper [of c] p have "proper c'" by auto
    moreover from I search_pass_points [OF p] have "\<forall>x \<in> conn_points c'. \<bar>x\<bar> \<le> 2 ^ 53"
      by blast
    ultimately show "?I c'" using I
      by (simp add: search_pass_nonempty [OF p] search_pass_bars [OF p])
  qed
  then have i: "newConn \<noteq> []" "proper newConn" "conn_mset newConn = edge_mset E"
    "\<forall>x \<in> conn_points newConn. \<bar>x\<bar> \<le> 2 ^ 53"
    and f: "search_pass newConn = Inr (newConn, False)" by blast+
  have "FEsort (bars_of E) = Some (Inr (PyList (map FE_of newConn)))"
    by (simp add: FEsort_def l to_FE_exact [OF i(2,4)])
  with l i f show ?thesis by blast
qed

section \<open>Properties of \<open>FEsort\<close>\<close>

lemmas FEsort_eval =
  FEsort_def search_loop.simps search_pass_def link_def to_FE_def fill_FE_def bars_of_def
  float64_exact

lemma recovered_bars_fill: "recovered_bars (map FE_of conn) = conn_bars conn"
  by (simp add: recovered_bars_def conn_bars_def comp_def FE_bars_fill)

lemma FE_polyline_of: "2 \<le> length c \<Longrightarrow> FE_polyline (FE_of c) = c"
proof -
  assume "2 \<le> length c"
  then obtain x y zs where c: "c = x # y # zs"
    by (cases c; cases "tl c") auto
  have "butlast (y # zs) @ [last (y # zs)] = y # zs"
    by (rule append_butlast_last_id) simp
  then show ?thesis by (simp add: FE_polyline_def FE_of_def c)
qed

lemma polyline_bars_fill: "proper conn \<Longrightarrow> polyline_bars (map FE_of conn) = conn_bars conn"
  by (induction conn) (simp_all add: polyline_bars_def conn_bars_def proper_def FE_polyline_of)

lemma FEsort_conserves:
  assumes "ids_exact E" "FEsort (bars_of E) = Some (Inr (PyList newConnFE))"
  shows "edge_mset (polyline_bars newConnFE) = edge_mset E"
    and "edge_mset (recovered_bars newConnFE) = edge_mset E"
proof -
  have "edge_mset (polyline_bars newConnFE) = edge_mset E \<and>
        edge_mset (recovered_bars newConnFE) = edge_mset E"
  proof (cases "E = []")
    case True
    with assms(2) show ?thesis by (simp add: FEsort_eval)
  next
    case False
    from FEsort_run [OF this assms(1)] assms(2) show ?thesis
      by (auto simp: recovered_bars_fill polyline_bars_fill conn_mset_def)
  qed
  then show "edge_mset (polyline_bars newConnFE) = edge_mset E"
    and "edge_mset (recovered_bars newConnFE) = edge_mset E" by simp_all
qed

lemma FEsort_returns:
  "E \<noteq> [] \<Longrightarrow> ids_exact E \<Longrightarrow> \<exists>newConnFE. FEsort (bars_of E) = Some (Inr (PyList newConnFE))"
  using FEsort_run by blast

text \<open>Two runs with ids that a double does not hold.\<close>

lemma FEsort_rounds:
  "FEsort [[9007199254740993, 1]] = Some (Inr (PyList [([9007199254740992], [1])]))"
  by (simp add: FEsort_def search_loop.simps search_pass_def to_FE_def fill_FE_def
      float64_rounds_down float64_exact)

lemma FEsort_overflows: "FEsort [[2 ^ 1024, 1]] = Some (Inl OverflowError)"
  by (simp add: FEsort_def search_loop.simps search_pass_def to_FE_def fill_FE_def
      float64_overflow del: power_numeral)

section \<open>The fixed point of the loop\<close>

subsection \<open>A pass that links nothing\<close>

lemma link_None: "link oldElement newElement = Inr None \<Longrightarrow> ends oldElement \<inter> ends newElement = {}"
  by (auto simp: link_def ends_def split: if_splits)

lemma fit_element_None:
  "fit_element oldElement newConn = Inr None \<Longrightarrow>
     \<forall>newElement \<in> set newConn. ends oldElement \<inter> ends newElement = {}"
  by (induction newConn) (auto dest: link_None split: sum.splits option.splits)

lemma apart_snoc:
  "apart (cs @ [c]) \<longleftrightarrow> apart cs \<and> (\<forall>d \<in> set cs. ends d \<inter> ends c = {})"
  by (induction cs) auto

lemma assign_all_apart:
  "assign_all oldConn newConn ks = Inr (newConn', False) \<Longrightarrow> apart newConn \<Longrightarrow> apart newConn'"
proof (induction oldConn arbitrary: newConn ks)
  case Nil
  then show ?case by simp
next
  case (Cons oldElement oldConn)
  show ?case
  proof (cases "fit_element oldElement newConn")
    case (Inl e)
    with Cons.prems show ?thesis by simp
  next
    case (Inr r)
    show ?thesis
    proof (cases r)
      case None
      with Inr Cons.prems(1)
      have a: "assign_all oldConn (newConn @ [oldElement]) ks = Inr (newConn', False)" by simp
      from fit_element_None Inr None Cons.prems(2) have "apart (newConn @ [oldElement])"
        by (auto simp: apart_snoc)
      with Cons.IH [OF a] show ?thesis .
    next
      case (Some nc)
      with Inr Cons.prems(1) have "assign_all oldConn nc True = Inr (newConn', False)" by simp
      from assign_all_length [OF this] show ?thesis by simp
    qed
  qed
qed

lemma search_pass_apart: "search_pass conn = Inr (newConn', False) \<Longrightarrow> apart newConn'"
  by (cases conn) (auto simp: search_pass_def dest: assign_all_apart)

subsection \<open>Degrees\<close>

lemma degree_Nil [simp]: "degree [] v = 0"
  by (simp add: degree_def)

lemma degree_Cons:
  "degree (e # es) v = (if fst e = v then 1 else 0) + (if snd e = v then 1 else 0) + degree es v"
  by (simp add: degree_def)

lemma degree_append [simp]: "degree (es @ fs) v = degree es v + degree fs v"
  by (simp add: degree_def)

lemma degree_mset:
  "degree E v = size {#e \<in># edge_mset E. fst e = v#} + size {#e \<in># edge_mset E. snd e = v#}"
proof (induction E)
  case Nil
  then show ?case by simp
next
  case (Cons e E)
  have "edge_mset (e # E) = add_mset (undirected e) (edge_mset E)"
    by (simp add: edge_mset_def)
  with Cons show ?case
    by (cases e) (auto simp: degree_Cons undirected_def min_def max_def)
qed

lemma degree_cong: "edge_mset E = edge_mset F \<Longrightarrow> degree E v = degree F v"
  by (simp add: degree_mset)

lemma degree_conn_Cons [simp]:
  "degree (conn_bars (c # cs)) v = degree (curve_bars c) v + degree (conn_bars cs) v"
  by (simp add: conn_bars_def)

lemma degree_conn_member:
  "c \<in> set conn \<Longrightarrow> degree (curve_bars c) v \<le> degree (conn_bars conn) v"
  by (induction conn) auto

lemma degree_curve:
  "degree (curve_bars c) v = count_list (butlast c) v + count_list (tl c) v"
proof -
  have "map fst (zip c (tl c)) = butlast c"
    by (cases c) (simp_all add: map_fst_zip_take butlast_conv_take min_def)
  moreover have "map snd (zip c (tl c)) = tl c"
    by (simp add: map_snd_zip_take min_def)
  ultimately show ?thesis by (simp add: degree_def curve_bars_def)
qed

lemma count_list_pos: "x \<in> set xs \<Longrightarrow> Suc 0 \<le> count_list xs x"
  by (induction xs) auto

lemma degree_curve_ge1:
  assumes "2 \<le> length c" "v \<in> set c"
  shows "1 \<le> degree (curve_bars c) v"
proof -
  from assms(1) obtain x y zs where c: "c = x # y # zs"
    by (cases c; cases "tl c") auto
  with assms(2) have "v = x \<or> v \<in> set (y # zs)" by auto
  then show ?thesis
  proof
    assume "v = x"
    then show ?thesis unfolding degree_curve by (simp add: c)
  next
    assume "v \<in> set (y # zs)"
    then have "Suc 0 \<le> count_list (tl c) v" by (simp only: c list.sel count_list_pos)
    then show ?thesis by (simp add: degree_curve)
  qed
qed

lemma degree_curve_ge2:
  assumes "v \<in> set c" "v \<notin> ends c"
  shows "2 \<le> degree (curve_bars c) v"
proof -
  from assms have ne: "c \<noteq> []" and h: "v \<noteq> hd c" and l: "v \<noteq> last c"
    by (auto simp: ends_def)
  from assms(1) ne h have "v \<in> set (tl c)" by (cases c) auto
  moreover from assms(1) l have "v \<in> set (butlast c)"
    by (induction c) (auto split: if_splits)
  ultimately have "Suc 0 \<le> count_list (tl c) v" "Suc 0 \<le> count_list (butlast c) v"
    by (simp_all only: count_list_pos)
  then show ?thesis by (simp add: degree_curve)
qed

subsection \<open>Curves at the end of the loop share no point\<close>

lemma apart_disjoint:
  assumes "apart conn" "proper conn" "\<forall>v. degree (conn_bars conn) v \<le> 2"
  shows "disjoint_curves conn"
  using assms
proof (induction conn)
  case Nil
  then show ?case by simp
next
  case (Cons c cs)
  have "disjoint_curves cs"
  proof (rule Cons.IH)
    show "apart cs" using Cons.prems(1) by simp
    show "proper cs" using Cons.prems(2) by (simp add: proper_def)
    show "\<forall>v. degree (conn_bars cs) v \<le> 2"
    proof
      fix v
      from Cons.prems(3) have "degree (conn_bars (c # cs)) v \<le> 2" by blast
      then show "degree (conn_bars cs) v \<le> 2" by simp
    qed
  qed
  moreover have "set c \<inter> set d = {}" if d: "d \<in> set cs" for d
  proof (rule ccontr)
    assume "set c \<inter> set d \<noteq> {}"
    then obtain v where vc: "v \<in> set c" and vd: "v \<in> set d" by blast
    from Cons.prems(2) d have lc: "2 \<le> length c" and ld: "2 \<le> length d"
      by (simp_all add: proper_def)
    from Cons.prems(3) have "degree (conn_bars (c # cs)) v \<le> 2" by blast
    then have le: "degree (curve_bars c) v + degree (curve_bars d) v \<le> 2"
      using degree_conn_member [OF d, of v] by simp
    from degree_curve_ge1 [OF lc vc] degree_curve_ge1 [OF ld vd] le
    have "degree (curve_bars c) v < 2" "degree (curve_bars d) v < 2" by simp_all
    with degree_curve_ge2 [OF vc] degree_curve_ge2 [OF vd]
    have "v \<in> ends c" "v \<in> ends d" by fastforce+
    with Cons.prems(1) d show False by auto
  qed
  ultimately show ?case by simp
qed

lemma disjoint_curves_same:
  "disjoint_curves conn \<Longrightarrow> c \<in> set conn \<Longrightarrow> d \<in> set conn \<Longrightarrow> v \<in> set c \<Longrightarrow> v \<in> set d \<Longrightarrow>
     c = d"
  by (induction conn) auto

subsection \<open>Connectivity\<close>

lemma undirected_eq_iff: "undirected e = undirected f \<longleftrightarrow> f = e \<or> f = prod.swap e"
  by (cases e; cases f) (auto simp: undirected_def min_def max_def)

lemma adjacent_mset: "adjacent E = {e. undirected e \<in># edge_mset E}"
proof -
  have "undirected e \<in> undirected ` set E \<longleftrightarrow> e \<in> set E \<or> prod.swap e \<in> set E" for e
    by (auto simp: undirected_eq_iff image_iff)
  then show ?thesis
    by (auto simp: adjacent_def edge_mset_def)
qed

lemma adjacent_cong: "edge_mset E = edge_mset F \<Longrightarrow> adjacent E = adjacent F"
  by (simp add: adjacent_mset)

lemma sym_adjacent: "sym (adjacent E)"
  by (auto simp: adjacent_def sym_def)

lemma adjacent_curve_conn: "c \<in> set conn \<Longrightarrow> adjacent (curve_bars c) \<subseteq> adjacent (conn_bars conn)"
  by (auto simp: adjacent_def conn_bars_def)

lemma adjacent_conn_curve:
  assumes "(a, b) \<in> adjacent (conn_bars conn)"
  shows "\<exists>c \<in> set conn. a \<in> set c \<and> b \<in> set c"
proof -
  from assms obtain c where c: "c \<in> set conn"
    and "(a, b) \<in> set (zip c (tl c)) \<or> (b, a) \<in> set (zip c (tl c))"
    by (auto simp: adjacent_def conn_bars_def curve_bars_def)
  then have "a \<in> set c \<and> b \<in> set c"
    by (auto dest: set_zip_leftD set_zip_rightD in_set_tl)
  with c show ?thesis by blast
qed

lemma curve_reach_hd: "u \<in> set c \<Longrightarrow> (hd c, u) \<in> (adjacent (curve_bars c))\<^sup>*"
proof (induction c rule: induct_list012)
  case 1
  then show ?case by simp
next
  case (2 x)
  then show ?case by simp
next
  case (3 x y zs)
  have step: "(x, y) \<in> adjacent (curve_bars (x # y # zs))"
    by (simp add: adjacent_def)
  have sub: "adjacent (curve_bars (y # zs)) \<subseteq> adjacent (curve_bars (x # y # zs))"
    by (auto simp: adjacent_def)
  show ?case
  proof (cases "u = x")
    case True
    then show ?thesis by simp
  next
    case False
    with 3 have "(y, u) \<in> (adjacent (curve_bars (y # zs)))\<^sup>*" by simp
    with sub have "(y, u) \<in> (adjacent (curve_bars (x # y # zs)))\<^sup>*"
      using rtrancl_mono by blast
    with step show ?thesis by (simp add: converse_rtrancl_into_rtrancl)
  qed
qed

lemma curve_connected:
  assumes "u \<in> set c" "v \<in> set c"
  shows "(u, v) \<in> (adjacent (curve_bars c))\<^sup>*"
proof -
  have "(u, hd c) \<in> (adjacent (curve_bars c))\<^sup>*"
    using curve_reach_hd [OF assms(1)] sym_rtrancl [OF sym_adjacent] by (blast dest: symD)
  from this curve_reach_hd [OF assms(2)] show ?thesis by (rule rtrancl_trans)
qed

lemma points_adjacent: "u \<in> set (points E) \<Longrightarrow> \<exists>w. (u, w) \<in> adjacent E"
  by (fastforce simp: points_def adjacent_def)

lemma FE_points_fill: "2 \<le> length c \<Longrightarrow> FE_points (FE_of c) = set c"
proof -
  assume "2 \<le> length c"
  then obtain x y zs where c: "c = x # y # zs"
    by (cases c; cases "tl c") auto
  have "set (butlast (y # zs)) \<subseteq> set (y # zs)"
    by (auto dest: in_set_butlastD)
  then show ?thesis by (auto simp: FE_points_def FE_of_def c)
qed

subsection \<open>Feeding the bars of finished curves back in\<close>

lemma bars_of_append [simp]: "bars_of (es @ fs) = bars_of es @ bars_of fs"
  by (simp add: bars_of_def)

lemma bars_of_Cons [simp]: "bars_of ((a, b) # es) = [a, b] # bars_of es"
  by (simp add: bars_of_def)

lemma bars_of_Nil [simp]: "bars_of [] = []"
  by (simp add: bars_of_def)

lemma search_pass_assign_all: "conn \<noteq> [] \<Longrightarrow> search_pass conn = assign_all conn [] False"
  by (cases conn) (simp_all add: search_pass_def)

lemma fit_element_skip:
  assumes "\<forall>d \<in> set done. link oldElement d = Inr None"
  shows "fit_element oldElement (done @ rest) =
           (case fit_element oldElement rest of
              Inl e \<Rightarrow> Inl e
            | Inr None \<Rightarrow> Inr None
            | Inr (Some rest') \<Rightarrow> Inr (Some (done @ rest')))"
  using assms by (induction "done") (auto split: sum.splits option.splits)

lemma link_bar_None:
  assumes "d \<noteq> []" "x \<notin> ends d" "y \<notin> ends d"
  shows "link [x, y] d = Inr None"
  using assms by (simp add: link_def ends_def)

lemma link_bar_tail:
  assumes "pre \<noteq> []" "x \<noteq> hd pre"
  shows "link [x, y] (pre @ [x]) = Inr (Some (pre @ [x, y]))"
  using assms by (simp add: link_def)

lemma fit_bar_tail:
  assumes "pre \<noteq> []" "x \<noteq> hd pre"
    and "\<forall>d \<in> set done. d \<noteq> [] \<and> x \<notin> ends d \<and> y \<notin> ends d"
  shows "fit_element [x, y] (done @ [pre @ [x]]) = Inr (Some (done @ [pre @ [x, y]]))"
proof -
  from assms(3) have "\<forall>d \<in> set done. link [x, y] d = Inr None"
    by (simp add: link_bar_None)
  from fit_element_skip [OF this] link_bar_tail [OF assms(1,2)] show ?thesis
    by simp
qed

lemma fit_bar_nowhere:
  assumes "\<forall>d \<in> set done. d \<noteq> [] \<and> x \<notin> ends d \<and> y \<notin> ends d"
  shows "fit_element [x, y] done = Inr None"
proof -
  from assms have "\<forall>d \<in> set done. link [x, y] d = Inr None"
    by (simp add: link_bar_None)
  from fit_element_skip [OF this, of "[]"] show ?thesis by simp
qed

lemma grow_curve:
  assumes "pre \<noteq> []" "hd pre \<notin> set (butlast (x # rem))"
    and "\<forall>d \<in> set done. d \<noteq> [] \<and> ends d \<inter> set (x # rem) = {}"
  shows "assign_all (bars_of (curve_bars (x # rem)) @ more) (done @ [pre @ [x]]) ks
           = assign_all more (done @ [pre @ x # rem]) (ks \<or> rem \<noteq> [])"
  using assms
proof (induction rem arbitrary: pre x ks)
  case Nil
  then show ?case by simp
next
  case (Cons y rem)
  from Cons.prems(2) have xh: "x \<noteq> hd pre" by auto
  from Cons.prems(3) have "\<forall>d \<in> set done. d \<noteq> [] \<and> x \<notin> ends d \<and> y \<notin> ends d"
    by auto
  from fit_bar_tail [OF Cons.prems(1) xh this]
  have "assign_all (bars_of (curve_bars (x # y # rem)) @ more) (done @ [pre @ [x]]) ks
          = assign_all (bars_of (curve_bars (y # rem)) @ more) (done @ [(pre @ [x]) @ [y]]) True"
    by simp
  also have "\<dots> = assign_all more (done @ [(pre @ [x]) @ y # rem]) (True \<or> rem \<noteq> [])"
  proof (rule Cons.IH)
    show "pre @ [x] \<noteq> []" by simp
    show "hd (pre @ [x]) \<notin> set (butlast (y # rem))"
      using Cons.prems(1,2) by (auto split: if_splits)
    show "\<forall>d \<in> set done. d \<noteq> [] \<and> ends d \<inter> set (y # rem) = {}"
      using Cons.prems(3) by auto
  qed
  finally show ?case by simp
qed

lemma feed_curve:
  assumes "hd c \<notin> set (butlast (tl c))" "2 \<le> length c"
    and "\<forall>d \<in> set done. d \<noteq> [] \<and> ends d \<inter> set c = {}"
  shows "assign_all (bars_of (curve_bars c) @ more) done ks
           = assign_all more (done @ [c]) (ks \<or> 2 < length c)"
proof -
  from assms(2) obtain a b rem where c: "c = a # b # rem"
    by (cases c; cases "tl c") auto
  from assms(3) have "\<forall>d \<in> set done. d \<noteq> [] \<and> a \<notin> ends d \<and> b \<notin> ends d"
    by (auto simp: c)
  from fit_bar_nowhere [OF this]
  have "assign_all (bars_of (curve_bars c) @ more) done ks
          = assign_all (bars_of (curve_bars (b # rem)) @ more) (done @ [[] @ [a, b]]) ks"
    by (simp add: c)
  also have "\<dots> = assign_all (bars_of (curve_bars (b # rem)) @ more) (done @ [[a] @ [b]]) ks"
    by simp
  also have "\<dots> = assign_all more (done @ [[a] @ b # rem]) (ks \<or> rem \<noteq> [])"
  proof (rule grow_curve)
    show "[a] \<noteq> []" by simp
    show "hd [a] \<notin> set (butlast (b # rem))" using assms(1) by (simp add: c)
    show "\<forall>d \<in> set done. d \<noteq> [] \<and> ends d \<inter> set (b # rem) = {}"
      using assms(3) by (auto simp: c)
  qed
  finally show ?thesis by (simp add: c)
qed

lemma disjoint_curves_append:
  "disjoint_curves (xs @ ys) \<longleftrightarrow>
     disjoint_curves xs \<and> disjoint_curves ys \<and> (\<forall>x \<in> set xs. \<forall>y \<in> set ys. set x \<inter> set y = {})"
  by (induction xs) auto

lemma ends_subset: "d \<noteq> [] \<Longrightarrow> ends d \<subseteq> set d"
  by (simp add: ends_def)

lemma conn_bars_Cons [simp]: "conn_bars (c # cs) = curve_bars c @ conn_bars cs"
  by (simp add: conn_bars_def)

lemma conn_bars_Nil [simp]: "conn_bars [] = []"
  by (simp add: conn_bars_def)

lemma feed_curves:
  assumes "proper done" "proper cs" "disjoint_curves (done @ cs)"
    and "\<forall>c \<in> set cs. hd c \<notin> set (butlast (tl c))"
  shows "assign_all (bars_of (conn_bars cs)) done ks
           = Inr (done @ cs, ks \<or> (\<exists>c \<in> set cs. 2 < length c))"
  using assms
proof (induction cs arbitrary: "done" ks)
  case Nil
  then show ?case by simp
next
  case (Cons c cs)
  from Cons.prems(2) have lc: "2 \<le> length c" and pcs: "proper cs"
    by (simp_all add: proper_def)
  have "\<forall>d \<in> set done. d \<noteq> [] \<and> ends d \<inter> set c = {}"
  proof
    fix d assume d: "d \<in> set done"
    with Cons.prems(1) have ne: "d \<noteq> []" by (auto simp: proper_def)
    from Cons.prems(3) d have "set d \<inter> set c = {}"
      by (simp add: disjoint_curves_append)
    with ends_subset [OF ne] show "d \<noteq> [] \<and> ends d \<inter> set c = {}"
      using ne by blast
  qed
  with Cons.prems(4) lc
  have "assign_all (bars_of (conn_bars (c # cs))) done ks
          = assign_all (bars_of (conn_bars cs)) (done @ [c]) (ks \<or> 2 < length c)"
    by (simp add: feed_curve)
  also have "\<dots> = Inr ((done @ [c]) @ cs, (ks \<or> 2 < length c) \<or> (\<exists>c \<in> set cs. 2 < length c))"
  proof (rule Cons.IH)
    show "proper (done @ [c])" using Cons.prems(1) lc by (auto simp: proper_def)
    show "proper cs" by (rule pcs)
    show "disjoint_curves ((done @ [c]) @ cs)" using Cons.prems(3) by simp
    show "\<forall>c \<in> set cs. hd c \<notin> set (butlast (tl c))" using Cons.prems(4) by simp
  qed
  finally show ?case by auto
qed

lemma degree_no_revisit:
  assumes "degree (curve_bars c) (hd c) \<le> 2"
  shows "hd c \<notin> set (butlast (tl c))"
proof
  assume a: "hd c \<in> set (butlast (tl c))"
  then have "tl c \<noteq> []" by auto
  then obtain x t where c: "c = x # t" and t: "t \<noteq> []" by (cases c) auto
  from a c have xb: "x \<in> set (butlast t)" by simp
  then have "x \<in> set t" by (rule in_set_butlastD)
  with xb have "Suc 0 \<le> count_list (butlast t) x" "Suc 0 \<le> count_list t x"
    by (simp_all only: count_list_pos)
  then have "3 \<le> degree (curve_bars c) (hd c)"
    unfolding degree_curve using t by (simp add: c)
  with assms show False by simp
qed

lemma max_degree_2_all: "max_degree_2 E \<Longrightarrow> degree E w \<le> 2"
  by (cases "w \<in> set (points E)") (simp_all add: max_degree_2_def degree_def points_def)

lemma FEsort_run_degree:
  assumes "E \<noteq> []" "ids_exact E" "max_degree_2 E"
  shows "\<exists>newConn. FEsort (bars_of E) = Some (Inr (PyList (map FE_of newConn))) \<and>
           newConn \<noteq> [] \<and> proper newConn \<and> search_pass newConn = Inr (newConn, False) \<and>
           disjoint_curves newConn \<and> (\<forall>c \<in> set newConn. hd c \<notin> set (butlast (tl c))) \<and>
           (\<forall>x \<in> conn_points newConn. \<bar>x\<bar> \<le> 2 ^ 53)"
proof -
  from FEsort_run [OF assms(1,2)] obtain newConn
    where r: "FEsort (bars_of E) = Some (Inr (PyList (map FE_of newConn)))"
      and ne: "newConn \<noteq> []"
      and pr: "proper newConn" and ms: "conn_mset newConn = edge_mset E"
      and fp: "search_pass newConn = Inr (newConn, False)"
      and ex: "\<forall>x \<in> conn_points newConn. \<bar>x\<bar> \<le> 2 ^ 53" by blast
  have dg: "degree (conn_bars newConn) w \<le> 2" for w
  proof -
    have "degree (conn_bars newConn) w = degree E w"
      using ms unfolding conn_mset_def by (rule degree_cong)
    with max_degree_2_all [OF assms(3), of w] show ?thesis by simp
  qed
  then have "\<forall>w. degree (conn_bars newConn) w \<le> 2" by blast
  with search_pass_apart [OF fp] pr have dj: "disjoint_curves newConn"
    by (rule apart_disjoint)
  have "hd c \<notin> set (butlast (tl c))" if c: "c \<in> set newConn" for c
  proof (rule degree_no_revisit)
    from degree_conn_member [OF c, of "hd c"] dg [of "hd c"]
    show "degree (curve_bars c) (hd c) \<le> 2" by simp
  qed
  with r ne pr fp dj ex show ?thesis by blast
qed

lemma refeed:
  assumes "newConn \<noteq> []" "proper newConn" "search_pass newConn = Inr (newConn, False)"
    and "disjoint_curves newConn" "\<forall>c \<in> set newConn. hd c \<notin> set (butlast (tl c))"
  shows "search_loop (bars_of (conn_bars newConn)) = Some (Inr newConn)"
proof -
  from assms(1,2) obtain c cs where n: "newConn = c # cs" and "2 \<le> length c"
    by (cases newConn) (auto simp: proper_def)
  then obtain a b rem where "c = a # b # rem"
    by (cases c; cases "tl c") auto
  with n have "bars_of (conn_bars newConn) \<noteq> []" by simp
  then have "search_pass (bars_of (conn_bars newConn))
               = assign_all (bars_of (conn_bars newConn)) [] False"
    by (rule search_pass_assign_all)
  also have "\<dots> = Inr ([] @ newConn, False \<or> (\<exists>c \<in> set newConn. 2 < length c))"
    by (rule feed_curves) (use assms in \<open>simp_all add: proper_def\<close>)
  finally have p: "search_pass (bars_of (conn_bars newConn))
                     = Inr (newConn, \<exists>c \<in> set newConn. 2 < length c)"
    by simp
  have l: "search_loop newConn = Some (Inr newConn)"
    by (subst search_loop.simps) (simp add: assms(3))
  show ?thesis
    by (subst search_loop.simps) (simp add: p l)
qed

section \<open>The claims\<close>

text \<open>
  Point ids are indices into the coordinate array of the CGNS file. The statements about
  the arrays that \<open>FEsort\<close> returns are made for inputs whose ids have absolute value at
  most \<open>2^53\<close> (\<open>ids_exact\<close>), the range in which the float64 arrays hold every id
  unchanged; \<open>FEsort_rounds\<close> and \<open>FEsort_overflows\<close> show what happens outside it.
\<close>

subsection \<open>C1: edge conservation\<close>

text \<open>
  Claim C1. The bars of the curves that \<open>FEsort\<close> returns (the pairs of consecutive points
  of each curve, which are also the columns of each array), compared
  direction-insensitively, are as a multiset exactly the input edges: none is invented and
  none is dropped. When the input has no duplicate edge, every input edge therefore occurs
  exactly once among these bars, so in exactly one curve. A result exists for every
  non-empty input. Of the validity conditions none is needed.
\<close>

theorem FEsort_edge_conservation:
  assumes "ids_exact E"
  shows "(E \<noteq> [] \<longrightarrow> (\<exists>newConnFE. FEsort (bars_of E) = Some (Inr (PyList newConnFE)))) \<and>
   (\<forall>newConnFE. FEsort (bars_of E) = Some (Inr (PyList newConnFE)) \<longrightarrow>
      edge_mset (polyline_bars newConnFE) = edge_mset E \<and>
      edge_mset (recovered_bars newConnFE) = edge_mset E \<and>
      (distinct (map undirected E) \<longrightarrow>
         (\<forall>e \<in> set E. count (edge_mset (polyline_bars newConnFE)) (undirected e) = 1)))"
proof (intro conjI allI impI)
  assume "E \<noteq> []"
  then show "\<exists>newConnFE. FEsort (bars_of E) = Some (Inr (PyList newConnFE))"
    using assms by (rule FEsort_returns)
next
  fix newConnFE
  assume r: "FEsort (bars_of E) = Some (Inr (PyList newConnFE))"
  from assms r show eq: "edge_mset (polyline_bars newConnFE) = edge_mset E"
    by (rule FEsort_conserves(1))
  from assms r show "edge_mset (recovered_bars newConnFE) = edge_mset E"
    by (rule FEsort_conserves(2))
  assume d: "distinct (map undirected E)"
  show "\<forall>e \<in> set E. count (edge_mset (polyline_bars newConnFE)) (undirected e) = 1"
  proof
    fix e assume "e \<in> set E"
    then have "undirected e \<in> set (map undirected E)" by simp
    with d have "count (edge_mset E) (undirected e) = 1"
      unfolding edge_mset_def by (simp only: distinct_count_atmost_1 if_True)
    then show "count (edge_mset (polyline_bars newConnFE)) (undirected e) = 1"
      by (simp only: eq)
  qed
qed

theorem FEsort_edge_conservation_witness:
  "ids_exact [(2, 3), (3, 4)] \<and> [(2, 3), (3, 4)] \<noteq> ([] :: (int \<times> int) list) \<and>
   FEsort (bars_of [(2, 3), (3, 4)]) = Some (Inr (PyList [([2, 3], [3, 4])])) \<and>
   polyline_bars [([2, 3], [3, 4])] = [(2, 3), (3, 4)] \<and>
   distinct (map undirected [(2, 3), (3, 4)]) \<and>
   edge_mset (polyline_bars [([2, 3], [3, 4])]) = edge_mset [(2, 3), (3, 4)] \<and>
   count (edge_mset (polyline_bars [([2, 3], [3, 4])])) (undirected (3, 4)) = 1"
proof -
  have i: "ids_exact [(2, 3), (3, 4)]"
    by (simp add: ids_exact_def)
  have r: "FEsort (bars_of [(2, 3), (3, 4)]) = Some (Inr (PyList [([2, 3], [3, 4])]))"
    by (simp add: FEsort_eval)
  have b: "polyline_bars [([2, 3], [3, 4])] = [(2, 3), (3, 4 :: int)]"
    by (simp add: polyline_bars_def FE_polyline_def)
  have d: "distinct (map undirected [(2, 3), (3, 4)])"
    by (simp add: undirected_def)
  have m: "(3, 4) \<in> set [(2, 3), (3, 4) :: int \<times> int]"
    by simp
  from FEsort_edge_conservation [OF i] r d m
  have "edge_mset (polyline_bars [([2, 3], [3, 4])]) = edge_mset [(2, 3), (3, 4)] \<and>
        count (edge_mset (polyline_bars [([2, 3], [3, 4])])) (undirected (3, 4)) = 1"
    by blast
  with i r b d show ?thesis by blast
qed

subsection \<open>C2: connectivity\<close>

text \<open>
  Claim C2. When no point of the input has more than two edges, two points of the input lie
  in the same returned curve exactly when a path of input edges connects them: every
  connected component becomes one curve and different components become different curves.
\<close>

theorem FEsort_connectivity:
  assumes deg: "max_degree_2 E" and ex: "ids_exact E"
    and u: "u \<in> set (points E)" and v: "v \<in> set (points E)"
  shows "\<exists>newConnFE. FEsort (bars_of E) = Some (Inr (PyList newConnFE)) \<and>
           ((\<exists>c \<in> set newConnFE. u \<in> FE_points c \<and> v \<in> FE_points c) \<longleftrightarrow> connected E u v)"
proof -
  from u have "E \<noteq> []" by (auto simp: points_def)
  from FEsort_run [OF this ex] obtain newConn
    where r: "FEsort (bars_of E) = Some (Inr (PyList (map FE_of newConn)))"
      and pr: "proper newConn" and ms: "conn_mset newConn = edge_mset E"
      and fp: "search_pass newConn = Inr (newConn, False)" by blast
  have adj: "adjacent (conn_bars newConn) = adjacent E"
    using ms unfolding conn_mset_def by (rule adjacent_cong)
  have "degree (conn_bars newConn) w \<le> 2" for w
  proof -
    have "degree (conn_bars newConn) w = degree E w"
      using ms unfolding conn_mset_def by (rule degree_cong)
    moreover have "degree E w \<le> 2"
    proof (cases "w \<in> set (points E)")
      case True
      with deg show ?thesis by (simp add: max_degree_2_def)
    next
      case False
      then show ?thesis by (simp add: degree_def points_def)
    qed
    ultimately show ?thesis by simp
  qed
  then have "\<forall>w. degree (conn_bars newConn) w \<le> 2" by blast
  with search_pass_apart [OF fp] pr have dj: "disjoint_curves newConn"
    by (rule apart_disjoint)
  have pts: "(\<exists>c \<in> set (map FE_of newConn). u \<in> FE_points c \<and> v \<in> FE_points c) \<longleftrightarrow>
             (\<exists>c \<in> set newConn. u \<in> set c \<and> v \<in> set c)"
    using pr by (auto simp: proper_def FE_points_fill)
  have "(\<exists>c \<in> set newConn. u \<in> set c \<and> v \<in> set c) \<longleftrightarrow> connected E u v"
  proof
    assume "\<exists>c \<in> set newConn. u \<in> set c \<and> v \<in> set c"
    then obtain c where c: "c \<in> set newConn" "u \<in> set c" "v \<in> set c" by blast
    from adjacent_curve_conn [OF c(1)] adj have "adjacent (curve_bars c) \<subseteq> adjacent E"
      by simp
    then have "(adjacent (curve_bars c))\<^sup>* \<subseteq> (adjacent E)\<^sup>*"
      by (rule rtrancl_mono)
    with curve_connected [OF c(2,3)] show "connected E u v"
      unfolding connected_def by (rule subsetD [rotated])
  next
    assume "connected E u v"
    then have "(u, v) \<in> (adjacent E)\<^sup>*" by (simp add: connected_def)
    then show "\<exists>c \<in> set newConn. u \<in> set c \<and> v \<in> set c"
    proof (induction rule: rtrancl_induct)
      case base
      from points_adjacent [OF u] obtain w where "(u, w) \<in> adjacent (conn_bars newConn)"
        unfolding adj by blast
      from adjacent_conn_curve [OF this] show ?case by blast
    next
      case (step y z)
      then obtain c where c: "c \<in> set newConn" "u \<in> set c" "y \<in> set c" by blast
      from step(2) have "(y, z) \<in> adjacent (conn_bars newConn)"
        unfolding adj .
      from adjacent_conn_curve [OF this] obtain d
        where d: "d \<in> set newConn" "y \<in> set d" "z \<in> set d" by blast
      from disjoint_curves_same [OF dj c(1) d(1) c(3) d(2)] c d show ?case by blast
    qed
  qed
  with pts have "(\<exists>c \<in> set (map FE_of newConn). u \<in> FE_points c \<and> v \<in> FE_points c) \<longleftrightarrow>
       connected E u v" by (rule trans)
  with r show ?thesis by (intro exI conjI)
qed

theorem FEsort_connectivity_witness:
  "max_degree_2 [(5, 6), (7, 8)] \<and> ids_exact [(5, 6), (7, 8)] \<and>
   5 \<in> set (points [(5, 6), (7, 8)]) \<and>
   6 \<in> set (points [(5, 6), (7, 8)]) \<and> 7 \<in> set (points [(5, 6), (7, 8)]) \<and>
   FEsort (bars_of [(5, 6), (7, 8)]) = Some (Inr (PyList [([5], [6]), ([7], [8])])) \<and>
   map FE_polyline [([5], [6]), ([7], [8])] = [[5, 6], [7, 8]] \<and>
   connected [(5, 6), (7, 8)] 5 6 \<and> \<not> connected [(5, 6), (7, 8)] 5 7"
proof -
  have d: "max_degree_2 [(5, 6), (7, 8)]"
    by (simp add: max_degree_2_def points_def degree_def)
  have i: "ids_exact [(5, 6), (7, 8)]"
    by (simp add: ids_exact_def)
  have p: "5 \<in> set (points [(5, 6), (7, 8)])" "6 \<in> set (points [(5, 6), (7, 8)])"
    "7 \<in> set (points [(5, 6), (7, 8)])"
    by (simp_all add: points_def)
  have r: "FEsort (bars_of [(5, 6), (7, 8)]) = Some (Inr (PyList [([5], [6]), ([7], [8])]))"
    by (simp add: FEsort_eval)
  from FEsort_connectivity [OF d i p(1) p(2)] r
  have a: "connected [(5, 6), (7, 8)] 5 6"
    by (auto simp: FE_points_def)
  from FEsort_connectivity [OF d i p(1) p(3)] r
  have b: "\<not> connected [(5, 6), (7, 8)] 5 7"
    by (auto simp: FE_points_def)
  have q: "map FE_polyline [([5], [6]), ([7], [8])] = [[5, 6], [7, 8]]"
    by (simp add: FE_polyline_def)
  from d i p r q a b show ?thesis by blast
qed

subsection \<open>C3: empty input\<close>

text \<open>
  Claim C3 says that the empty edge list gives an empty output. The first pass pops the
  front element of the empty list, so \<open>FEsort\<close> raises and returns nothing.
\<close>

theorem FEsort_empty_counterexample:
  "\<not> (\<exists>out. FEsort (bars_of []) = Some (Inr out))"
  by (simp add: FEsort_eval)

text \<open>
  Claim C3, amended. Called with the empty edge list, \<open>FEsort\<close> raises \<open>IndexError\<close>, in
  its first pass, and returns no output collection.
\<close>

theorem FEsort_empty_raises:
  "bars_of [] = [] \<and> search_pass [] = Inl IndexError \<and> FEsort [] = Some (Inl IndexError)"
  by (simp add: FEsort_eval)

subsection \<open>C4: branch points\<close>

text \<open>
  Claim C4 says that a degraded flag and the set of branch points come with the output. The
  whole value returned for the branching input \<open>[(1,2),(1,3),(1,4)]\<close> is the list of the
  two arrays of the curves \<open>[3,1,2]\<close> and \<open>[1,4]\<close>: there is no flag and no set of points.
\<close>

theorem FEsort_branch_counterexample:
  "has_branch [(1, 2), (1, 3), (1, 4)] \<and>
   FEsort (bars_of [(1, 2), (1, 3), (1, 4)]) = Some (Inr (PyList [([3, 1], [1, 2]), ([1], [4])]))"
  by (simp add: FEsort_eval has_branch_def degree_def points_def)

text \<open>
  Claim C4, amended. For every input with a point of degree three or more \<open>FEsort\<close> does
  not raise: it returns a list of arrays, and nothing else, whose bars are the input edges.
\<close>

theorem FEsort_branch_best_effort:
  assumes "has_branch E" "ids_exact E"
  shows "\<exists>newConnFE. FEsort (bars_of E) = Some (Inr (PyList newConnFE)) \<and>
           edge_mset (polyline_bars newConnFE) = edge_mset E \<and>
           edge_mset (recovered_bars newConnFE) = edge_mset E"
proof -
  from assms(1) have "E \<noteq> []" by (auto simp: has_branch_def points_def)
  then obtain newConnFE where "FEsort (bars_of E) = Some (Inr (PyList newConnFE))"
    using FEsort_returns assms(2) by blast
  then show ?thesis using FEsort_conserves [OF assms(2)] by blast
qed

theorem FEsort_branch_best_effort_witness:
  "has_branch [(1, 2), (1, 3), (1, 4)] \<and> ids_exact [(1, 2), (1, 3), (1, 4)] \<and>
   (\<exists>newConnFE. FEsort (bars_of [(1, 2), (1, 3), (1, 4)]) = Some (Inr (PyList newConnFE)) \<and>
      edge_mset (polyline_bars newConnFE) = edge_mset [(1, 2), (1, 3), (1, 4)] \<and>
      edge_mset (recovered_bars newConnFE) = edge_mset [(1, 2), (1, 3), (1, 4)])"
proof -
  have b: "has_branch [(1, 2), (1, 3), (1, 4)]"
    by (simp add: has_branch_def degree_def points_def)
  have i: "ids_exact [(1, 2), (1, 3), (1, 4)]"
    by (simp add: ids_exact_def)
  from FEsort_branch_best_effort [OF b i] b i show ?thesis by blast
qed

subsection \<open>C5: edges out of order\<close>

text \<open>
  Claim C5 says that the edge \<open>(2,3)\<close> matches no working curve when it is first seen. It
  is first seen in the first pass, with \<open>newConn = [[1,2],[3,4]]\<close>, and is linked to the
  tail of \<open>[1,2]\<close> there.
\<close>

theorem FEsort_out_of_order_counterexample:
  "fit_element [2, 3] [[1, 2], [3, 4]] \<noteq> Inr None \<and>
   search_pass (bars_of [(1, 2), (3, 4), (2, 3)]) = Inr ([[1, 2, 3], [3, 4]], True)"
  by (simp add: FEsort_eval)

text \<open>
  Claim C5, amended. For \<open>[(1,2),(3,4),(2,3)]\<close> the result is the single open curve
  \<open>[1,2,3,4]\<close>. In the first pass \<open>[3,4]\<close> fits nowhere and starts a curve of its own,
  and \<open>(2,3)\<close> is linked to \<open>[1,2]\<close>; it is the curve \<open>[3,4]\<close> that is merged on the
  second pass, and the third pass changes nothing.
\<close>

theorem FEsort_out_of_order:
  "search_pass (bars_of [(1, 2), (3, 4), (2, 3)]) = Inr ([[1, 2, 3], [3, 4]], True) \<and>
   fit_element [3, 4] [[1, 2]] = Inr None \<and>
   search_pass [[1, 2, 3], [3, 4]] = Inr ([[1, 2, 3, 4]], True) \<and>
   search_pass [[1, 2, 3, 4]] = Inr ([[1, 2, 3, 4]], False) \<and>
   FEsort (bars_of [(1, 2), (3, 4), (2, 3)]) = Some (Inr (PyList [([1, 2, 3], [2, 3, 4])])) \<and>
   map FE_polyline [([1, 2, 3], [2, 3, 4])] = [[1, 2, 3, 4]] \<and>
   \<not> FE_closed ([1, 2, 3], [2, 3, 4])"
  by (simp add: FEsort_eval FE_polyline_def FE_closed_def)

subsection \<open>C6: a closed loop\<close>

text \<open>
  Claim C6. For \<open>[(1,2),(2,3),(3,1)]\<close> the result is one curve, with point sequence
  \<open>[1,2,3,1]\<close>; it is closed by the test on its first and last point, and its three bars
  are the three input edges.
\<close>

theorem FEsort_closed_loop:
  "FEsort (bars_of [(1, 2), (2, 3), (3, 1)]) = Some (Inr (PyList [([1, 2, 3], [2, 3, 1])])) \<and>
   map FE_polyline [([1, 2, 3], [2, 3, 1])] = [[1, 2, 3, 1]] \<and>
   FE_closed ([1, 2, 3], [2, 3, 1]) \<and>
   edge_mset (recovered_bars [([1, 2, 3], [2, 3, 1])]) = edge_mset [(1, 2), (2, 3), (3, 1)]"
  by (simp add: FEsort_eval FE_polyline_def FE_closed_def recovered_bars_def FE_bars_def
      edge_mset_def undirected_def)

subsection \<open>C7: malformed input\<close>

text \<open>
  Claim C7 says that a self-loop or a duplicate edge is rejected before stitching. The
  self-loop \<open>[(1,1)]\<close> and the duplicate \<open>[(1,2),(1,2)]\<close> are both stitched into a curve.
\<close>

theorem FEsort_malformed_counterexample:
  "malformed [(1, 1)] \<and>
   FEsort (bars_of [(1, 1)]) = Some (Inr (PyList [([1], [1])])) \<and>
   malformed [(1, 2), (1, 2)] \<and>
   FEsort (bars_of [(1, 2), (1, 2)]) = Some (Inr (PyList [([2, 1], [1, 2])]))"
  by (simp add: FEsort_eval malformed_def)

text \<open>
  Claim C7, amended. \<open>FEsort\<close> validates nothing: every input with a self-loop or a
  duplicate edge is stitched like any other, and the curves returned hold the input edges.
\<close>

theorem FEsort_malformed_accepted:
  assumes "malformed E" "ids_exact E"
  shows "\<exists>newConnFE. FEsort (bars_of E) = Some (Inr (PyList newConnFE)) \<and>
           edge_mset (polyline_bars newConnFE) = edge_mset E \<and>
           edge_mset (recovered_bars newConnFE) = edge_mset E"
proof -
  from assms(1) have "E \<noteq> []" by (auto simp: malformed_def)
  then obtain newConnFE where "FEsort (bars_of E) = Some (Inr (PyList newConnFE))"
    using FEsort_returns assms(2) by blast
  then show ?thesis using FEsort_conserves [OF assms(2)] by blast
qed

theorem FEsort_malformed_accepted_witness:
  "malformed [(4, 4), (4, 5)] \<and> ids_exact [(4, 4), (4, 5)] \<and>
   (\<exists>newConnFE. FEsort (bars_of [(4, 4), (4, 5)]) = Some (Inr (PyList newConnFE)) \<and>
      edge_mset (polyline_bars newConnFE) = edge_mset [(4, 4), (4, 5)] \<and>
      edge_mset (recovered_bars newConnFE) = edge_mset [(4, 4), (4, 5)])"
proof -
  have m: "malformed [(4, 4), (4, 5)]"
    by (simp add: malformed_def)
  have i: "ids_exact [(4, 4), (4, 5)]"
    by (simp add: ids_exact_def)
  from FEsort_malformed_accepted [OF m i] m i show ?thesis by blast
qed

subsection \<open>C8: termination\<close>

text \<open>
  Claim C8. \<open>FEsort\<close> comes to an end on every input (for a non-empty list of edges, by
  returning a list of arrays), because a pass that leaves \<open>keep_searching\<close> set hands a
  strictly shorter working list to the next pass, and a pass that leaves it cleared changes
  nothing and ends the loop.
\<close>

theorem FEsort_terminates:
  "(\<exists>r. FEsort barsConn = Some r) \<and>
   (E \<noteq> [] \<and> ids_exact E \<longrightarrow>
      (\<exists>newConnFE. FEsort (bars_of E) = Some (Inr (PyList newConnFE)))) \<and>
   (\<forall>conn conn' keep_searching. search_pass conn = Inr (conn', keep_searching) \<longrightarrow>
      (if keep_searching then length conn' < length conn else conn' = conn))"
proof (intro conjI allI impI)
  from search_loop_returns obtain r where "search_loop barsConn = Some r" by blast
  then show "\<exists>r. FEsort barsConn = Some r"
    by (auto simp: FEsort_def split: sum.splits)
next
  assume "E \<noteq> [] \<and> ids_exact E"
  then show "\<exists>newConnFE. FEsort (bars_of E) = Some (Inr (PyList newConnFE))"
    by (simp add: FEsort_returns)
next
  fix conn conn' keep_searching
  assume "search_pass conn = Inr (conn', keep_searching)"
  then show "if keep_searching then length conn' < length conn else conn' = conn"
    by (rule search_pass_length)
qed

theorem FEsort_terminates_witness:
  "[(2, 3), (5, 6), (3, 4), (5, 4)] \<noteq> ([] :: (int \<times> int) list) \<and>
   ids_exact [(2, 3), (5, 6), (3, 4), (5, 4)] \<and>
   FEsort (bars_of [(2, 3), (5, 6), (3, 4), (5, 4)])
     = Some (Inr (PyList [([2, 3, 4, 5], [3, 4, 5, 6])])) \<and>
   search_pass (bars_of [(2, 3), (5, 6), (3, 4), (5, 4)]) = Inr ([[2, 3, 4, 5], [5, 6]], True) \<and>
   length [[2, 3, 4, 5], [5, 6 :: int]] < length (bars_of [(2, 3), (5, 6), (3, 4), (5, 4)])"
proof -
  have i: "ids_exact [(2, 3), (5, 6), (3, 4), (5, 4)]"
    by (simp add: ids_exact_def)
  have p: "search_pass (bars_of [(2, 3), (5, 6), (3, 4), (5, 4)])
             = Inr ([[2, 3, 4, 5], [5, 6]], True)"
    by (simp add: FEsort_eval)
  have r: "FEsort (bars_of [(2, 3), (5, 6), (3, 4), (5, 4)])
             = Some (Inr (PyList [([2, 3, 4, 5], [3, 4, 5, 6])]))"
    by (simp add: FEsort_eval)
  from FEsort_terminates [of "bars_of [(2, 3), (5, 6), (3, 4), (5, 4)]"
      "[(2, 3), (5, 6), (3, 4), (5, 4)]"] p r i
  show ?thesis by fastforce
qed

subsection \<open>C9: idempotence\<close>

text \<open>
  Claim C9. When no point of the input has more than two edges, sorting the bars recovered
  from the result of \<open>FEsort\<close> gives that result again: the same curves, in the same order
  and the same direction, hence the same up to reversal and reordering. The bars recovered
  are the columns of the arrays, which are the pairs of consecutive points of the curves.
  A first result exists for every non-empty input.
\<close>

theorem FEsort_idempotent:
  assumes "max_degree_2 E" "ids_exact E"
  shows "(E \<noteq> [] \<longrightarrow> (\<exists>newConnFE. FEsort (bars_of E) = Some (Inr (PyList newConnFE)))) \<and>
         (\<forall>newConnFE. FEsort (bars_of E) = Some (Inr (PyList newConnFE)) \<longrightarrow>
            recovered_bars newConnFE = polyline_bars newConnFE \<and>
            FEsort (bars_of (recovered_bars newConnFE)) = Some (Inr (PyList newConnFE)))"
proof (cases "E = []")
  case True
  then show ?thesis by (simp add: FEsort_eval)
next
  case False
  from FEsort_run_degree [OF False assms(2,1)] obtain newConn
    where r: "FEsort (bars_of E) = Some (Inr (PyList (map FE_of newConn)))"
      and ne: "newConn \<noteq> []" and pr: "proper newConn"
      and fp: "search_pass newConn = Inr (newConn, False)"
      and dj: "disjoint_curves newConn"
      and nr: "\<forall>c \<in> set newConn. hd c \<notin> set (butlast (tl c))"
      and ex: "\<forall>x \<in> conn_points newConn. \<bar>x\<bar> \<le> 2 ^ 53" by blast
  from refeed [OF ne pr fp dj nr]
  have "FEsort (bars_of (conn_bars newConn)) = Some (Inr (PyList (map FE_of newConn)))"
    by (simp add: FEsort_def to_FE_exact [OF pr ex])
  then have "FEsort (bars_of (recovered_bars (map FE_of newConn)))
               = Some (Inr (PyList (map FE_of newConn)))"
    by (simp only: recovered_bars_fill)
  moreover have "recovered_bars (map FE_of newConn) = polyline_bars (map FE_of newConn)"
    by (simp only: recovered_bars_fill polyline_bars_fill [OF pr])
  ultimately show ?thesis using r by simp
qed

theorem FEsort_idempotent_witness:
  "max_degree_2 [(7, 8), (1, 2), (9, 8), (2, 3), (3, 1)] \<and>
   ids_exact [(7, 8), (1, 2), (9, 8), (2, 3), (3, 1)] \<and>
   FEsort (bars_of [(7, 8), (1, 2), (9, 8), (2, 3), (3, 1)])
     = Some (Inr (PyList [([7, 8], [8, 9]), ([1, 2, 3], [2, 3, 1])])) \<and>
   recovered_bars [([7, 8], [8, 9]), ([1, 2, 3], [2, 3, 1])]
     = [(7, 8), (8, 9), (1, 2), (2, 3), (3, 1)] \<and>
   FEsort (bars_of [(7, 8), (8, 9), (1, 2), (2, 3), (3, 1)])
     = Some (Inr (PyList [([7, 8], [8, 9]), ([1, 2, 3], [2, 3, 1])]))"
proof -
  have d: "max_degree_2 [(7, 8), (1, 2), (9, 8), (2, 3), (3, 1)]"
    by (simp add: max_degree_2_def points_def degree_def)
  have i: "ids_exact [(7, 8), (1, 2), (9, 8), (2, 3), (3, 1)]"
    by (simp add: ids_exact_def)
  have r: "FEsort (bars_of [(7, 8), (1, 2), (9, 8), (2, 3), (3, 1)])
             = Some (Inr (PyList [([7, 8], [8, 9]), ([1, 2, 3], [2, 3, 1])]))"
    by (simp add: FEsort_eval)
  have b: "recovered_bars [([7, 8], [8, 9]), ([1, 2, 3], [2, 3, 1])]
             = [(7, 8), (8, 9), (1, 2), (2, 3), (3, 1 :: int)]"
    by (simp add: recovered_bars_def FE_bars_def)
  from FEsort_idempotent [OF d i] r
  have "FEsort (bars_of (recovered_bars [([7, 8], [8, 9]), ([1, 2, 3], [2, 3, 1])]))
          = Some (Inr (PyList [([7, 8], [8, 9]), ([1, 2, 3], [2, 3, 1])]))"
    by blast
  with d i r b show ?thesis by simp
qed

subsection \<open>C10: the result is never \<open>None\<close>\<close>

text \<open>
  Claim C10. \<open>FEsort\<close> never returns \<open>None\<close>, so the caller never takes the branch that
  falls back to the unsorted connectivity and prints the warning; for every non-empty list
  of edges the result is a list of arrays and the caller keeps it.
\<close>

theorem FEsort_never_None:
  "FEsort barsConn \<noteq> Some (Inr PyNone) \<and>
   (\<forall>r. FEsort barsConn = Some (Inr r) \<longrightarrow> section_choice r \<noteq> UseOriginalAndWarn) \<and>
   (E \<noteq> [] \<and> ids_exact E \<longrightarrow>
      (\<exists>newConnFE. FEsort (bars_of E) = Some (Inr (PyList newConnFE)) \<and>
         section_choice (PyList newConnFE) = UseSorted newConnFE))"
proof -
  have n: "FEsort barsConn \<noteq> Some (Inr PyNone)"
    by (auto simp: FEsort_def split: option.splits sum.splits)
  have "section_choice r \<noteq> UseOriginalAndWarn" if "FEsort barsConn = Some (Inr r)" for r
    using that n by (cases r) (auto simp: section_choice_def)
  moreover have "\<exists>newConnFE. FEsort (bars_of E) = Some (Inr (PyList newConnFE)) \<and>
         section_choice (PyList newConnFE) = UseSorted newConnFE" if "E \<noteq> [] \<and> ids_exact E"
    using FEsort_returns [of E] that by (auto simp: section_choice_def)
  ultimately show ?thesis using n by blast
qed

theorem FEsort_never_None_witness:
  "[(5, 6), (7, 8)] \<noteq> ([] :: (int \<times> int) list) \<and> ids_exact [(5, 6), (7, 8)] \<and>
   FEsort (bars_of [(5, 6), (7, 8)]) = Some (Inr (PyList [([5], [6]), ([7], [8])])) \<and>
   section_choice (PyList [([5], [6]), ([7], [8])]) = UseSorted [([5], [6]), ([7], [8])]"
proof -
  have i: "ids_exact [(5, 6), (7, 8)]"
    by (simp add: ids_exact_def)
  have r: "FEsort (bars_of [(5, 6), (7, 8)]) = Some (Inr (PyList [([5], [6]), ([7], [8])]))"
    by (simp add: FEsort_eval)
  from FEsort_never_None [of "bars_of [(5, 6), (7, 8)]" "[(5, 6), (7, 8)]"] r i
  show ?thesis by fastforce
qed

end
